theory Spec2Isabelle
  imports Main "HOL-Library.Word"
begin

section \<open>Real-time voice console: audio pipeline and event coordinator\<close>

text \<open>
  A shallow embedding of \<^verbatim>\<open>real_time_voice/voice_console.py\<close>: the class
  \<^verbatim>\<open>AudioProcessor\<close> (capture line, transmit queue, playback line), the event
  handler of \<^verbatim>\<open>BasicVoiceAssistant\<close>, the voice selection of
  \<^verbatim>\<open>_setup_session\<close> and the base64 transport encoding of captured audio.
\<close>

subsection \<open>Bytes and the base64 transport form\<close>

text \<open>
  Python \<^verbatim>\<open>bytes\<close> are lists of 8-bit words; Python \<^verbatim>\<open>str\<close> values are
  \<^typ>\<open>string\<close>.
\<close>

type_synonym byte = "8 word"
type_synonym bytes = "byte list"

text \<open>
  Line 141 of the source calls the standard library:
  \<^verbatim>\<open>base64.b64encode(audio_data).decode("utf-8")\<close>. The library function is the
  RFC 4648 encoding with the standard alphabet and \<^verbatim>\<open>=\<close> padding: every three
  bytes give four characters, a trailing group of one or two bytes is padded.
\<close>

definition b64chars :: string where
  "b64chars = ''ABCDEFGHIJKLMNOPQRSTUVWXYZabcdefghijklmnopqrstuvwxyz0123456789+/''"

definition b64char :: "nat \<Rightarrow> char" where
  "b64char i = b64chars ! i"

fun b64encode :: "bytes \<Rightarrow> string" where
  "b64encode [] = []"
| "b64encode [a] =
     (let n = unat a in
      [b64char (n div 4), b64char (n mod 4 * 16), CHR ''='', CHR ''=''])"
| "b64encode [a, b] =
     (let n = unat a * 256 + unat b in
      [b64char (n div 1024), b64char (n div 16 mod 64), b64char (n mod 16 * 4), CHR ''=''])"
| "b64encode (a # b # c # rest) =
     (let n = unat a * 65536 + unat b * 256 + unat c in
      [b64char (n div 262144), b64char (n div 4096 mod 64),
       b64char (n div 64 mod 64), b64char (n mod 64)] @ b64encode rest)"

text \<open>
  Modelled from the spec: the decoder of the transport form. The source only encodes
  (the receiving side decodes, and inbound audio arrives already decoded from the SDK),
  so "decoding it back" is modelled as the strict RFC 4648 decoder: groups of four
  alphabet characters, padding accepted only in the last group, anything else rejected.
\<close>

definition b64index :: "char \<Rightarrow> nat option" where
  "b64index c = map_of (zip b64chars [0..<64]) c"

fun b64decode :: "string \<Rightarrow> bytes option" where
  "b64decode [] = Some []"
| "b64decode (c1 # c2 # c3 # c4 # rest) =
     (case (b64index c1, b64index c2) of
        (Some i1, Some i2) \<Rightarrow>
          if c3 = CHR ''='' \<and> c4 = CHR ''='' then
            (if rest = [] then Some [of_nat ((i1 * 64 + i2) div 16)] else None)
          else (case b64index c3 of
            None \<Rightarrow> None
          | Some i3 \<Rightarrow>
              if c4 = CHR ''='' then
                (if rest = []
                 then Some (let n = (i1 * 64 + i2) * 64 + i3 in
                            [of_nat (n div 1024), of_nat (n div 4 mod 256)])
                 else None)
              else (case b64index c4 of
                None \<Rightarrow> None
              | Some i4 \<Rightarrow>
                  (case b64decode rest of
                     None \<Rightarrow> None
                   | Some bs \<Rightarrow>
                       Some (let n = ((i1 * 64 + i2) * 64 + i3) * 64 + i4 in
                             [of_nat (n div 65536), of_nat (n div 256 mod 256),
                              of_nat (n mod 256)] @ bs))))
      | _ \<Rightarrow> None)"
| "b64decode _ = None"

subsection \<open>Collaborators: device layer, channel, scheduling\<close>

text \<open>
  The audio device (PyAudio) and the duplex channel are external. What they answer is
  an argument of the model: whether opening a stream succeeds, what a blocking read
  returns, whether a write or a response-cancel raises. Calls for which the source has
  no handler and the collaborator contract no failure (closing a stream, starting or
  joining a thread, scheduling a coroutine on the loop) are total. What the program does
  to its collaborators is recorded in the state: the frames read from the input stream,
  the frames written to the output stream, the append commands that the send worker has
  issued (\<open>sent\<close>: an append is fire-and-forget, issuing it schedules a coroutine on the
  event loop), those among them that the loop has run on the channel since
  (\<open>transmitted\<close>), the number of streams open on the device layer and the number of
  live worker threads of each kind.
\<close>

datatype error = DeviceError string | ChannelError string | AssertionError string

datatype stream = Stream

datatype event_loop = EventLoop

datatype input_open = InputOpened | InputOpenFails string | InputStartFails string

datatype output_open = OutputOpened | OutputOpenFails string

subsection \<open>AudioProcessor\<close>

record audio_processor =
  is_capturing :: bool
  is_playing :: bool
  input_stream :: "stream option"
  output_stream :: "stream option"
  audio_queue :: "bytes list"
  audio_send_queue :: "string list"
  loop :: "event_loop option"
  capture_workers :: nat
  send_workers :: nat
  playback_workers :: nat
  open_inputs :: nat
  open_outputs :: nat
  frames_read :: "bytes list"
  sent :: "string list"
  transmitted :: "string list"
  played :: "bytes list"

text \<open>\<^verbatim>\<open>AudioProcessor.__init__\<close>, lines 66-91.\<close>

definition init_audio_processor :: audio_processor where
  "init_audio_processor =
     \<lparr>is_capturing = False, is_playing = False, input_stream = None, output_stream = None,
      audio_queue = [], audio_send_queue = [], loop = None,
      capture_workers = 0, send_workers = 0, playback_workers = 0,
      open_inputs = 0, open_outputs = 0, frames_read = [], sent = [],
      transmitted = [], played = []\<rparr>"

text \<open>
  \<^verbatim>\<open>start_capture\<close>, lines 93-130. The flag is set before the device is opened; the
  handler of the \<^verbatim>\<open>try\<close> block resets it and re-raises. A failure of
  \<^verbatim>\<open>start_stream\<close> comes after the assignment to \<^verbatim>\<open>self.input_stream\<close>.
\<close>

definition start_capture ::
  "input_open \<Rightarrow> audio_processor \<Rightarrow> (error \<times> audio_processor) + audio_processor" where
  "start_capture dev s =
     (if is_capturing s then Inr s
      else
        let s1 = s\<lparr>loop := Some EventLoop, is_capturing := True\<rparr> in
        case dev of
          InputOpenFails e \<Rightarrow> Inl (DeviceError e, s1\<lparr>is_capturing := False\<rparr>)
        | InputStartFails e \<Rightarrow>
            Inl (DeviceError e,
                 s1\<lparr>input_stream := Some Stream, open_inputs := open_inputs s1 + 1,
                    is_capturing := False\<rparr>)
        | InputOpened \<Rightarrow>
            Inr (s1\<lparr>input_stream := Some Stream, open_inputs := open_inputs s1 + 1,
                    capture_workers := capture_workers s1 + 1,
                    send_workers := send_workers s1 + 1\<rparr>))"

text \<open>
  The loops of \<^verbatim>\<open>stop_capture\<close> and \<^verbatim>\<open>stop_playback\<close> that empty a queue:
  \<^verbatim>\<open>while not q.empty(): q.get_nowait()\<close>.
\<close>

fun clear_queue :: "'a list \<Rightarrow> 'a list" where
  "clear_queue [] = []"
| "clear_queue (x # q) = clear_queue q"

text \<open>
  \<^verbatim>\<open>stop_capture\<close>, lines 170-195. Joining a thread waits and changes no field: a
  worker leaves by its own loop test, in \<open>worker_step\<close> below.
\<close>

definition stop_capture :: "audio_processor \<Rightarrow> audio_processor" where
  "stop_capture s =
     (if \<not> is_capturing s then s
      else
        let s1 = s\<lparr>is_capturing := False\<rparr>;
            s2 = (case input_stream s1 of
                    None \<Rightarrow> s1
                  | Some _ \<Rightarrow> s1\<lparr>input_stream := None, open_inputs := open_inputs s1 - 1\<rparr>)
        in s2\<lparr>audio_send_queue := clear_queue (audio_send_queue s2)\<rparr>)"



text \<open>\<^verbatim>\<open>start_playback\<close>, lines 197-223.\<close>

definition start_playback ::
  "output_open \<Rightarrow> audio_processor \<Rightarrow> (error \<times> audio_processor) + audio_processor" where
  "start_playback dev s =
     (if is_playing s then Inr s
      else
        let s1 = s\<lparr>is_playing := True\<rparr> in
        case dev of
          OutputOpenFails e \<Rightarrow> Inl (DeviceError e, s1\<lparr>is_playing := False\<rparr>)
        | OutputOpened \<Rightarrow>
            Inr (s1\<lparr>output_stream := Some Stream, open_outputs := open_outputs s1 + 1,
                    playback_workers := playback_workers s1 + 1\<rparr>))"

text \<open>\<^verbatim>\<open>queue_audio\<close>, lines 242-245.\<close>

definition queue_audio :: "bytes \<Rightarrow> audio_processor \<Rightarrow> audio_processor" where
  "queue_audio audio_data s =
     (if is_playing s then s\<lparr>audio_queue := audio_queue s @ [audio_data]\<rparr> else s)"

text \<open>\<^verbatim>\<open>stop_playback\<close>, lines 247-269.\<close>

definition stop_playback :: "audio_processor \<Rightarrow> audio_processor" where
  "stop_playback s =
     (if \<not> is_playing s then s
      else
        let s1 = s\<lparr>is_playing := False\<rparr>;
            s2 = s1\<lparr>audio_queue := clear_queue (audio_queue s1)\<rparr>
        in case output_stream s2 of
             None \<Rightarrow> s2
           | Some _ \<Rightarrow> s2\<lparr>output_stream := None, open_outputs := open_outputs s2 - 1\<rparr>)"

subsection \<open>Worker threads\<close>

text \<open>
  Each worker thread runs a loop; one step of the model is one iteration of one live
  worker, taken as a whole: the loop test, the blocking call, the guarded action. A
  timed-out \<^verbatim>\<open>get\<close> on an empty queue (\<^verbatim>\<open>queue.Empty\<close>, \<^verbatim>\<open>continue\<close>) leaves
  the state as it is; a false loop test or a \<^verbatim>\<open>break\<close> ends the thread. A step of a
  kind that has no live worker does nothing. The threads of one kind run the same code
  on the same fields, so only their number is kept.
\<close>

text \<open>\<^verbatim>\<open>_capture_audio_thread\<close>, lines 132-147; the argument is what \<^verbatim>\<open>read\<close> gives.\<close>

definition capture_iteration :: "string + bytes \<Rightarrow> audio_processor \<Rightarrow> audio_processor" where
  "capture_iteration r s =
     (if capture_workers s = 0 then s
      else if is_capturing s \<and> input_stream s \<noteq> None then
        (case r of
           Inl e \<Rightarrow> s\<lparr>capture_workers := capture_workers s - 1\<rparr>
         | Inr audio_data \<Rightarrow>
             let s1 = s\<lparr>frames_read := frames_read s @ [audio_data]\<rparr> in
             if audio_data \<noteq> [] \<and> is_capturing s1
             then s1\<lparr>audio_send_queue := audio_send_queue s1 @ [b64encode audio_data]\<rparr>
             else s1)
      else s\<lparr>capture_workers := capture_workers s - 1\<rparr>)"

text \<open>\<^verbatim>\<open>_send_audio_thread\<close>, lines 149-168.\<close>

definition send_iteration :: "audio_processor \<Rightarrow> audio_processor" where
  "send_iteration s =
     (if send_workers s = 0 then s
      else if is_capturing s then
        (case audio_send_queue s of
           [] \<Rightarrow> s
         | audio_base64 # q \<Rightarrow>
             let s1 = s\<lparr>audio_send_queue := q\<rparr> in
             if audio_base64 \<noteq> [] \<and> is_capturing s1 \<and> loop s1 \<noteq> None
             then s1\<lparr>sent := sent s1 @ [audio_base64]\<rparr>
             else s1)
      else s\<lparr>send_workers := send_workers s - 1\<rparr>)"

text \<open>
  \<^verbatim>\<open>_playback_audio_thread\<close>, lines 225-240; the argument is the error that
  \<^verbatim>\<open>write\<close> raises, if it raises.
\<close>

definition playback_iteration :: "string option \<Rightarrow> audio_processor \<Rightarrow> audio_processor" where
  "playback_iteration w s =
     (if playback_workers s = 0 then s
      else if is_playing s then
        (case audio_queue s of
           [] \<Rightarrow> s
         | audio_data # q \<Rightarrow>
             let s1 = s\<lparr>audio_queue := q\<rparr> in
             if audio_data \<noteq> [] \<and> output_stream s1 \<noteq> None \<and> is_playing s1
             then (case w of
                     None \<Rightarrow> s1\<lparr>played := played s1 @ [audio_data]\<rparr>
                   | Some e \<Rightarrow> s1\<lparr>playback_workers := playback_workers s1 - 1\<rparr>)
             else s1)
      else s\<lparr>playback_workers := playback_workers s - 1\<rparr>)"

datatype step = CaptureStep "string + bytes" | SendStep | PlaybackStep "string option"

fun worker_step :: "step \<Rightarrow> audio_processor \<Rightarrow> audio_processor" where
  "worker_step (CaptureStep r) s = capture_iteration r s"
| "worker_step SendStep s = send_iteration s"
| "worker_step (PlaybackStep w) s = playback_iteration w s"

text \<open>A schedule is any interleaving of worker iterations, run from left to right.\<close>

fun run_workers :: "step list \<Rightarrow> audio_processor \<Rightarrow> audio_processor" where
  "run_workers [] s = s"
| "run_workers (st # sched) s = run_workers sched (worker_step st s)"

fun write_succeeds :: "step \<Rightarrow> bool" where
  "write_succeeds (PlaybackStep (Some e)) = False"
| "write_succeeds _ = True"

fun is_playback_step :: "step \<Rightarrow> bool" where
  "is_playback_step (PlaybackStep w) = True"
| "is_playback_step _ = False"






text \<open>
  What holds of the fields whenever the control flow is between two calls. The playback
  queue is only filled while playback is active and is emptied when playback stops. The
  loop is stored before capture becomes active, and only non-empty payloads are put on
  the send queue.
\<close>

definition playback_inv :: "audio_processor \<Rightarrow> bool" where
  "playback_inv s \<longleftrightarrow> is_playing s \<or> audio_queue s = []"

definition capture_inv :: "audio_processor \<Rightarrow> bool" where
  "capture_inv s \<longleftrightarrow>
     (\<not> is_capturing s \<or> loop s \<noteq> None) \<and> [] \<notin> set (audio_send_queue s)"

subsection \<open>BasicVoiceAssistant: the event handler\<close>

datatype event =
    SessionUpdated
  | SpeechStarted
  | SpeechStopped
  | ResponseCreated
  | AudioDelta bytes
  | AudioDone
  | ResponseDone
  | ErrorEvent string
  | ConversationItemCreated
  | Unknown

text \<open>
  The channel as the handler uses it: \<^verbatim>\<open>conn.response.cancel()\<close>. The attempt is
  counted whether or not it raises.
\<close>

record connection =
  cancel_attempts :: nat

definition response_cancel ::
  "string option \<Rightarrow> connection \<Rightarrow> (error \<times> connection) + connection" where
  "response_cancel raises c =
     (let c1 = c\<lparr>cancel_attempts := cancel_attempts c + 1\<rparr> in
      case raises of None \<Rightarrow> Inr c1 | Some e \<Rightarrow> Inl (ChannelError e, c1))"

text \<open>
  The calls the handler makes on its two collaborators are logged in the order in which
  it makes them.
\<close>

datatype call = StartCapture | StopPlayback | CancelResponse | StartPlayback | QueueAudio

record voice_assistant =
  session_ready :: bool
  conversation_started :: bool
  audio_processor :: "audio_processor option"
  connection :: "connection option"
  calls :: "call list"

record environment =
  input_device :: input_open
  output_device :: output_open
  cancel_raises :: "string option"

text \<open>\<^verbatim>\<open>_handle_event\<close>, lines 401-459, after its two assertions.\<close>

fun dispatch ::
  "environment \<Rightarrow> event \<Rightarrow> audio_processor \<Rightarrow> connection \<Rightarrow> voice_assistant \<Rightarrow>
   (error \<times> voice_assistant) + voice_assistant" where
  "dispatch env SessionUpdated ap conn a =
     (let a1 = a\<lparr>session_ready := True, calls := calls a @ [StartCapture]\<rparr> in
      case start_capture (input_device env) ap of
        Inl (e, ap') \<Rightarrow> Inl (e, a1\<lparr>audio_processor := Some ap'\<rparr>)
      | Inr ap' \<Rightarrow> Inr (a1\<lparr>audio_processor := Some ap'\<rparr>))"
| "dispatch env SpeechStarted ap conn a =
     (let a1 = a\<lparr>audio_processor := Some (stop_playback ap),
                  calls := calls a @ [StopPlayback, CancelResponse]\<rparr> in
      case response_cancel (cancel_raises env) conn of
        Inl (e, conn') \<Rightarrow> Inr (a1\<lparr>connection := Some conn'\<rparr>)
      | Inr conn' \<Rightarrow> Inr (a1\<lparr>connection := Some conn'\<rparr>))"
| "dispatch env SpeechStopped ap conn a =
     (let a1 = a\<lparr>calls := calls a @ [StartPlayback]\<rparr> in
      case start_playback (output_device env) ap of
        Inl (e, ap') \<Rightarrow> Inl (e, a1\<lparr>audio_processor := Some ap'\<rparr>)
      | Inr ap' \<Rightarrow> Inr (a1\<lparr>audio_processor := Some ap'\<rparr>))"
| "dispatch env (AudioDelta delta) ap conn a =
     Inr (a\<lparr>audio_processor := Some (queue_audio delta ap), calls := calls a @ [QueueAudio]\<rparr>)"
| "dispatch env ResponseCreated ap conn a = Inr a"
| "dispatch env AudioDone ap conn a = Inr a"
| "dispatch env ResponseDone ap conn a = Inr a"
| "dispatch env (ErrorEvent msg) ap conn a = Inr a"
| "dispatch env ConversationItemCreated ap conn a = Inr a"
| "dispatch env Unknown ap conn a = Inr a"

definition handle_event ::
  "environment \<Rightarrow> event \<Rightarrow> voice_assistant \<Rightarrow> (error \<times> voice_assistant) + voice_assistant" where
  "handle_event env ev a =
     (case audio_processor a of
        None \<Rightarrow> Inl (AssertionError ''AudioProcessor must be initialized'', a)
      | Some ap \<Rightarrow>
          (case connection a of
             None \<Rightarrow> Inl (AssertionError ''Connection must be established'', a)
           | Some conn \<Rightarrow> dispatch env ev ap conn a))"

text \<open>
  Modelled from the spec: the receipt of an audio delta. The deserialisation of an
  inbound message is done by the SDK and is not part of the source. By the spec the
  payload of an AudioDelta arrives in transport form (base64) and is decoded to a raw
  frame; that frame is what the handler reads as \<^verbatim>\<open>event.delta\<close>. A payload that is
  not in transport form gives no event.
\<close>

definition receive_audio_delta :: "string \<Rightarrow> event option" where
  "receive_audio_delta payload = map_option AudioDelta (b64decode payload)"

text \<open>Concrete states and environments used to evaluate the model.\<close>

definition working_devices :: environment where
  "working_devices =
     \<lparr>input_device = InputOpened, output_device = OutputOpened, cancel_raises = None\<rparr>"

definition nothing_to_cancel :: environment where
  "nothing_to_cancel =
     \<lparr>input_device = InputOpened, output_device = OutputOpened,
      cancel_raises = Some ''no active response''\<rparr>"

definition playing_processor :: audio_processor where
  "playing_processor =
     init_audio_processor\<lparr>is_playing := True, output_stream := Some Stream,
       open_outputs := 1, playback_workers := 1\<rparr>"


definition capturing_processor :: audio_processor where
  "capturing_processor =
     init_audio_processor\<lparr>is_capturing := True, input_stream := Some Stream,
       loop := Some EventLoop, open_inputs := 1, capture_workers := 1, send_workers := 1,
       audio_send_queue := [''TWFu'', ''TQ==''], sent := [''AAEC'']\<rparr>"

definition interrupted_processor :: audio_processor where
  "interrupted_processor = playing_processor\<lparr>audio_queue := [[1, 2], [3, 4]], played := [[9]]\<rparr>"

definition responding_assistant :: voice_assistant where
  "responding_assistant =
     \<lparr>session_ready = True, conversation_started = False,
      audio_processor = Some interrupted_processor,
      connection = Some \<lparr>cancel_attempts = 0\<rparr>, calls = []\<rparr>"

definition listening_assistant :: voice_assistant where
  "listening_assistant =
     \<lparr>session_ready = True, conversation_started = False,
      audio_processor = Some (stop_playback interrupted_processor),
      connection = Some \<lparr>cancel_attempts = 1\<rparr>, calls = [StopPlayback, CancelResponse]\<rparr>"

subsection \<open>Voice selection in session setup\<close>

text \<open>
  \<^verbatim>\<open>_setup_session\<close>, lines 360-366: the voice is either an
  \<^verbatim>\<open>AzureStandardVoice(name=..., type="azure-standard")\<close> object or the plain string.
\<close>

datatype voice_config = AzureStandardVoice string string | VoiceName string

definition startswith :: "string \<Rightarrow> string \<Rightarrow> bool" where
  "startswith s p = (take (length p) s = p)"

definition setup_session_voice :: "string \<Rightarrow> voice_config" where
  "setup_session_voice voice =
     (if startswith voice ''en-US-'' \<or> startswith voice ''en-CA-'' \<or> CHR ''-'' \<in> set voice
      then AzureStandardVoice voice ''azure-standard''
      else VoiceName voice)"

fun is_azure_standard :: "voice_config \<Rightarrow> bool" where
  "is_azure_standard (AzureStandardVoice _ _) = True"
| "is_azure_standard (VoiceName _) = False"

section \<open>Properties\<close>

subsection \<open>Base64 round trip\<close>

lemma length_b64chars: "length b64chars = 64"
  by (simp add: b64chars_def)

lemma distinct_b64chars: "distinct b64chars"
  by (simp add: b64chars_def)

lemma b64index_b64char: "i < 64 \<Longrightarrow> b64index (b64char i) = Some i"
  unfolding b64index_def b64char_def
  using map_of_zip_nth [of b64chars "[0..<64]" i]
  by (simp add: length_b64chars distinct_b64chars)

lemma b64char_not_pad: "i < 64 \<Longrightarrow> b64char i \<noteq> CHR ''=''"
proof -
  assume "i < 64"
  then have "b64chars ! i \<in> set b64chars" by (simp add: length_b64chars)
  moreover have "CHR ''='' \<notin> set b64chars" by (simp add: b64chars_def)
  ultimately show ?thesis by (auto simp: b64char_def)
qed

lemma byte_bound: "unat (a :: byte) < 256"
  using unsigned_less [of a, where 'a = nat] by simp

lemma sextets_of_one: "(n div 4 * 64 + n mod 4 * 16) div 16 = (n::nat)"
proof -
  define q r where "q = n div 4" and "r = n mod 4"
  have n: "n = q * 4 + r" by (simp add: q_def r_def)
  have "q * 64 + r * 16 = (q * 4 + r) * 16" by simp
  then show ?thesis unfolding q_def [symmetric] r_def [symmetric] n by simp
qed

lemma high_sextets: "(n::nat) div 1024 * 64 + n div 16 mod 64 = n div 16"
proof -
  have "n div 1024 = n div 16 div 64" by (simp add: div_mult2_eq [symmetric])
  then show ?thesis by simp
qed

lemma sextets_of_two:
  fixes n :: nat
  shows "(n div 1024 * 64 + n div 16 mod 64) * 64 + n mod 16 * 4 = n * 4"
proof -
  define q r where "q = n div 16" and "r = n mod 16"
  have n: "n = q * 16 + r" by (simp add: q_def r_def)
  have "(n div 1024 * 64 + n div 16 mod 64) * 64 + n mod 16 * 4 = q * 64 + r * 4"
    by (simp only: high_sextets q_def r_def)
  also have "\<dots> = n * 4" unfolding n by simp
  finally show ?thesis .
qed

lemma sextets_of_three:
  fixes n :: nat
  shows "((n div 262144 * 64 + n div 4096 mod 64) * 64 + n div 64 mod 64) * 64 + n mod 64 = n"
proof -
  have a: "n div 262144 = n div 4096 div 64" by (simp add: div_mult2_eq [symmetric])
  have b: "n div 4096 = n div 64 div 64" by (simp add: div_mult2_eq [symmetric])
  have "n div 262144 * 64 + n div 4096 mod 64 = n div 4096" unfolding a by simp
  moreover have "n div 4096 * 64 + n div 64 mod 64 = n div 64" unfolding b by simp
  ultimately show ?thesis by simp
qed

lemma two_bytes_high: "b < 256 \<Longrightarrow> (a * 256 + b) * 4 div 1024 = (a::nat)"
  by simp

lemma two_bytes_low: "b < 256 \<Longrightarrow> (a * 256 + b) * 4 div 4 mod 256 = (b::nat)"
  by simp

lemma three_bytes_high:
  "b < 256 \<Longrightarrow> c < 256 \<Longrightarrow> (a * 65536 + b * 256 + c) div 65536 = (a::nat)"
  by simp

lemma three_bytes_mid:
  "b < 256 \<Longrightarrow> c < 256 \<Longrightarrow> (a * 65536 + b * 256 + c) div 256 mod 256 = (b::nat)"
proof -
  assume b: "b < 256" and c: "c < 256"
  have "a * 65536 + b * 256 + c = (a * 256 + b) * 256 + c" by simp
  then have "(a * 65536 + b * 256 + c) div 256 = a * 256 + b" using c by simp
  then show ?thesis using b by simp
qed

lemma three_bytes_low: "c < 256 \<Longrightarrow> (a * 65536 + b * 256 + c) mod 256 = (c::nat)"
proof -
  assume c: "c < 256"
  have h: "a * 65536 + b * 256 + c = c + 256 * (a * 256 + b)" by simp
  show ?thesis by (simp only: h mod_mult_self2 mod_less c)
qed

lemma decode_pad2:
  "i1 < 64 \<Longrightarrow> i2 < 64 \<Longrightarrow>
   b64decode [b64char i1, b64char i2, CHR ''='', CHR ''='']
     = Some [of_nat ((i1 * 64 + i2) div 16)]"
  by (simp add: b64index_b64char)

lemma decode_pad1:
  "i1 < 64 \<Longrightarrow> i2 < 64 \<Longrightarrow> i3 < 64 \<Longrightarrow>
   b64decode [b64char i1, b64char i2, b64char i3, CHR ''='']
     = Some [of_nat (((i1 * 64 + i2) * 64 + i3) div 1024),
             of_nat (((i1 * 64 + i2) * 64 + i3) div 4 mod 256)]"
  by (simp add: b64index_b64char b64char_not_pad Let_def)

lemma decode_full:
  "i1 < 64 \<Longrightarrow> i2 < 64 \<Longrightarrow> i3 < 64 \<Longrightarrow> i4 < 64 \<Longrightarrow> b64decode rest = Some bs \<Longrightarrow>
   b64decode (b64char i1 # b64char i2 # b64char i3 # b64char i4 # rest)
     = Some (of_nat ((((i1 * 64 + i2) * 64 + i3) * 64 + i4) div 65536) #
             of_nat ((((i1 * 64 + i2) * 64 + i3) * 64 + i4) div 256 mod 256) #
             of_nat ((((i1 * 64 + i2) * 64 + i3) * 64 + i4) mod 256) # bs)"
  by (simp add: b64index_b64char b64char_not_pad Let_def)

text \<open>
  C9. Encoding any byte string to the transport form (base64, as the capture worker
  does) and decoding it back gives the same bytes: the round trip is lossless.
\<close>

theorem b64_roundtrip: "b64decode (b64encode bs) = Some bs"
proof (induction bs rule: b64encode.induct)
  case 1
  show ?case by simp
next
  case (2 a)
  define n where "n = unat a"
  have n: "n < 256" unfolding n_def by (rule byte_bound)
  have b1: "n div 4 < 64" using n by simp
  have "n mod 4 < 4" by simp
  then have b2: "n mod 4 * 16 < 64" by linarith
  have "b64encode [a] = [b64char (n div 4), b64char (n mod 4 * 16), CHR ''='', CHR ''='']"
    by (simp add: n_def Let_def)
  then have "b64decode (b64encode [a]) = Some [of_nat n]"
    by (simp only: decode_pad2 [OF b1 b2] sextets_of_one)
  then show ?case by (simp add: n_def)
next
  case (3 a b)
  define n where "n = unat a * 256 + unat b"
  have a: "unat a < 256" and b: "unat b < 256" by (rule byte_bound)+
  have b1: "n div 1024 < 64" unfolding n_def using a b by simp
  have b2: "n div 16 mod 64 < 64" by simp
  have "n mod 16 < 16" by simp
  then have b3: "n mod 16 * 4 < 64" by linarith
  have "b64encode [a, b] =
      [b64char (n div 1024), b64char (n div 16 mod 64), b64char (n mod 16 * 4), CHR ''='']"
    by (simp add: n_def Let_def)
  then have "b64decode (b64encode [a, b])
      = Some [of_nat (n * 4 div 1024), of_nat (n * 4 div 4 mod 256)]"
    by (simp only: decode_pad1 [OF b1 b2 b3] sextets_of_two)
  then show ?case
    unfolding n_def by (simp only: two_bytes_high [OF b] two_bytes_low [OF b]) simp
next
  case (4 a b c rest)
  define n where "n = unat a * 65536 + unat b * 256 + unat c"
  have a: "unat a < 256" and b: "unat b < 256" and c: "unat c < 256" by (rule byte_bound)+
  have b1: "n div 262144 < 64" unfolding n_def using a b c by simp
  have b2: "n div 4096 mod 64 < 64" and b3: "n div 64 mod 64 < 64" and b4: "n mod 64 < 64"
    by simp_all
  have "b64encode (a # b # c # rest) =
      b64char (n div 262144) # b64char (n div 4096 mod 64) #
      b64char (n div 64 mod 64) # b64char (n mod 64) # b64encode rest"
    by (simp add: n_def Let_def)
  then have "b64decode (b64encode (a # b # c # rest))
      = Some (of_nat (n div 65536) # of_nat (n div 256 mod 256) # of_nat (n mod 256) # rest)"
    by (simp only: decode_full [OF b1 b2 b3 b4 "4.IH"] sextets_of_three)
  then show ?case
    unfolding n_def
    by (simp only: three_bytes_high [OF b c] three_bytes_mid [OF b c] three_bytes_low [OF c]) simp
qed

theorem b64_roundtrip_witness:
  "b64encode [77, 97, 110, 33] = ''TWFuIQ=='' \<and> b64decode ''TWFuIQ=='' = Some [77, 97, 110, 33]"
proof -
  have e: "b64encode [77, 97, 110, 33] = ''TWFuIQ==''"
    by (simp add: b64char_def b64chars_def)
  show ?thesis using b64_roundtrip [of "[77, 97, 110, 33]"] unfolding e by simp
qed

subsection \<open>Voice selection\<close>

lemma startswith_hyphen:
  "startswith voice p \<Longrightarrow> CHR ''-'' \<in> set p \<Longrightarrow> CHR ''-'' \<in> set voice"
  unfolding startswith_def by (metis in_set_takeD)

text \<open>
  C10. Session setup builds the structured Azure standard voice exactly when the
  configured voice string contains a hyphen, and uses the plain string otherwise; the two
  region-prefix tests add nothing to the hyphen test.
\<close>

theorem voice_azure_iff_hyphen:
  "setup_session_voice voice =
     (if CHR ''-'' \<in> set voice then AzureStandardVoice voice ''azure-standard''
      else VoiceName voice)
   \<and> (is_azure_standard (setup_session_voice voice) \<longleftrightarrow> CHR ''-'' \<in> set voice)
   \<and> (startswith voice ''en-US-'' \<or> startswith voice ''en-CA-'' \<longrightarrow> CHR ''-'' \<in> set voice)"
proof -
  have sub: "startswith voice ''en-US-'' \<or> startswith voice ''en-CA-'' \<longrightarrow> CHR ''-'' \<in> set voice"
    by (auto dest: startswith_hyphen)
  then show ?thesis by (auto simp: setup_session_voice_def)
qed

theorem voice_azure_iff_hyphen_witness:
  "setup_session_voice ''en-US-Ava'' = AzureStandardVoice ''en-US-Ava'' ''azure-standard''
   \<and> setup_session_voice ''my-voice'' = AzureStandardVoice ''my-voice'' ''azure-standard''
   \<and> setup_session_voice ''alloy'' = VoiceName ''alloy''
   \<and> startswith ''en-US-Ava'' ''en-US-''"
  using voice_azure_iff_hyphen [of "''en-US-Ava''"] voice_azure_iff_hyphen [of "''my-voice''"]
    voice_azure_iff_hyphen [of "''alloy''"]
  by (simp add: startswith_def)

subsection \<open>Capture line\<close>

lemma clear_queue_empty: "clear_queue q = []"
  by (induction q) simp_all

lemma b64encode_nonempty: "f \<noteq> [] \<Longrightarrow> b64encode f \<noteq> []"
  by (cases f rule: b64encode.cases) (simp_all add: Let_def)

lemmas iteration_defs = capture_iteration_def send_iteration_def playback_iteration_def

lemma worker_step_flags:
  "is_capturing (worker_step st s) = is_capturing s"
  "is_playing (worker_step st s) = is_playing s"
  "input_stream (worker_step st s) = input_stream s"
  "output_stream (worker_step st s) = output_stream s"
  "loop (worker_step st s) = loop s"
  by (cases st; simp add: iteration_defs Let_def split: list.splits sum.splits option.splits)+

lemma run_workers_flags:
  "is_capturing (run_workers sched s) = is_capturing s"
  "is_playing (run_workers sched s) = is_playing s"
  "input_stream (run_workers sched s) = input_stream s"
  "output_stream (run_workers sched s) = output_stream s"
  "loop (run_workers sched s) = loop s"
  by (induction sched arbitrary: s; simp add: worker_step_flags)+



text \<open>
  C6. Stopping capture is idempotent: the call has no error result, the line is
  inactive after the first call and after the second, the second call changes nothing,
  and a call on a line that is not capturing returns the state as it is.
\<close>

theorem stop_capture_idempotent:
  "stop_capture (stop_capture s) = stop_capture s
   \<and> \<not> is_capturing (stop_capture s)
   \<and> \<not> is_capturing (stop_capture (stop_capture s))
   \<and> (\<not> is_capturing s \<longrightarrow> stop_capture s = s)"
  by (simp add: stop_capture_def Let_def split: option.splits)

theorem stop_capture_idempotent_witness:
  "is_capturing capturing_processor
   \<and> stop_capture (stop_capture capturing_processor) = stop_capture capturing_processor
   \<and> \<not> is_capturing (stop_capture capturing_processor)
   \<and> \<not> is_capturing init_audio_processor
   \<and> stop_capture init_audio_processor = init_audio_processor"
  using stop_capture_idempotent [of capturing_processor]
    stop_capture_idempotent [of init_audio_processor]
  by (simp add: capturing_processor_def init_audio_processor_def)












text \<open>
  C8. If opening the input stream fails, starting capture raises the device error and
  leaves the line as it was: not capturing, the stream field untouched, no worker
  started (only the stored event loop is set).
\<close>

theorem start_capture_open_failure:
  assumes "\<not> is_capturing s"
  shows "start_capture (InputOpenFails e) s = Inl (DeviceError e, s\<lparr>loop := Some EventLoop\<rparr>)
   \<and> \<not> is_capturing (s\<lparr>loop := Some EventLoop\<rparr>)
   \<and> input_stream (s\<lparr>loop := Some EventLoop\<rparr>) = input_stream s
   \<and> capture_workers (s\<lparr>loop := Some EventLoop\<rparr>) = capture_workers s
   \<and> send_workers (s\<lparr>loop := Some EventLoop\<rparr>) = send_workers s"
  using assms by (simp add: start_capture_def Let_def)

theorem start_capture_open_failure_witness:
  "\<not> is_capturing init_audio_processor
   \<and> start_capture (InputOpenFails ''no device'') init_audio_processor
       = Inl (DeviceError ''no device'', init_audio_processor\<lparr>loop := Some EventLoop\<rparr>)
   \<and> capture_workers (init_audio_processor\<lparr>loop := Some EventLoop\<rparr>) = 0
   \<and> send_workers (init_audio_processor\<lparr>loop := Some EventLoop\<rparr>) = 0"
proof -
  have c: "\<not> is_capturing init_audio_processor"
    by (simp add: init_audio_processor_def)
  show ?thesis
    using start_capture_open_failure [OF c, of "''no device''"]
    by (simp add: init_audio_processor_def)
qed

subsection \<open>Event handler\<close>

lemma playback_inv_init: "playback_inv init_audio_processor"
  by (simp add: playback_inv_def init_audio_processor_def)

lemma stop_playback_effect:
  "\<not> is_playing (stop_playback s)"
  "played (stop_playback s) = played s"
  "is_playing s \<or> audio_queue s = [] \<Longrightarrow> audio_queue (stop_playback s) = []"
  by (auto simp: stop_playback_def Let_def clear_queue_empty split: option.splits)

text \<open>
  C1. Handling SpeechStarted stops playback first, so that the playback queue is empty
  when the handler returns and nothing more has been played, then attempts one
  response-cancel; whether or not the cancel raises, the handler returns normally.
\<close>

theorem speech_started_interrupts:
  assumes "audio_processor a = Some ap" and "connection a = Some conn" and "playback_inv ap"
  shows "handle_event env SpeechStarted a =
      Inr (a\<lparr>audio_processor := Some (stop_playback ap),
             calls := calls a @ [StopPlayback, CancelResponse],
             connection := Some (conn\<lparr>cancel_attempts := cancel_attempts conn + 1\<rparr>)\<rparr>)
   \<and> audio_queue (stop_playback ap) = []
   \<and> \<not> is_playing (stop_playback ap)
   \<and> played (stop_playback ap) = played ap"
proof -
  have q: "audio_queue (stop_playback ap) = []"
    using assms(3) by (simp add: playback_inv_def stop_playback_effect)
  have h: "handle_event env SpeechStarted a =
      Inr (a\<lparr>audio_processor := Some (stop_playback ap),
             calls := calls a @ [StopPlayback, CancelResponse],
             connection := Some (conn\<lparr>cancel_attempts := cancel_attempts conn + 1\<rparr>)\<rparr>)"
    using assms(1,2)
    by (cases "cancel_raises env") (simp_all add: handle_event_def response_cancel_def Let_def)
  show ?thesis using q h by (simp add: stop_playback_effect)
qed

lemma playback_inv_interrupted: "playback_inv interrupted_processor"
  by (simp add: playback_inv_def interrupted_processor_def playing_processor_def init_audio_processor_def)

theorem speech_started_interrupts_witness:
  "audio_queue interrupted_processor = [[1, 2], [3, 4]]
   \<and> handle_event nothing_to_cancel SpeechStarted responding_assistant = Inr listening_assistant
   \<and> audio_queue (stop_playback interrupted_processor) = []
   \<and> connection listening_assistant = Some \<lparr>cancel_attempts = 1\<rparr>"
  using speech_started_interrupts [of responding_assistant interrupted_processor
      "\<lparr>cancel_attempts = 0\<rparr>" nothing_to_cancel, OF _ _ playback_inv_interrupted]
  by (simp add: responding_assistant_def listening_assistant_def interrupted_processor_def)



subsection \<open>Playback line\<close>

text \<open>Playback with nothing queued.\<close>

lemma worker_step_empty_queue:
  "audio_queue s = [] \<Longrightarrow>
   audio_queue (worker_step st s) = [] \<and> played (worker_step st s) = played s \<and>
   (is_playing s \<longrightarrow> playback_workers (worker_step st s) = playback_workers s)"
  by (cases st; simp add: iteration_defs Let_def split: list.splits sum.splits option.splits)

lemma run_workers_empty_queue:
  "audio_queue s = [] \<Longrightarrow>
   audio_queue (run_workers sched s) = [] \<and> played (run_workers sched s) = played s \<and>
   (is_playing s \<longrightarrow> playback_workers (run_workers sched s) = playback_workers s)"
proof (induction sched arbitrary: s)
  case Nil
  then show ?case by simp
next
  case (Cons st sched)
  from worker_step_empty_queue [OF Cons.prems, of st]
  have q: "audio_queue (worker_step st s) = []"
    and p: "played (worker_step st s) = played s"
    and w: "is_playing s \<longrightarrow> playback_workers (worker_step st s) = playback_workers s"
    by simp_all
  from Cons.IH [OF q] p w Cons.prems show ?case by (simp add: worker_step_flags)
qed

lemma other_step_playback_fields:
  "\<not> is_playback_step st \<Longrightarrow>
   audio_queue (worker_step st s) = audio_queue s \<and> played (worker_step st s) = played s \<and>
   playback_workers (worker_step st s) = playback_workers s"
  by (cases st; simp add: iteration_defs Let_def split: list.splits sum.splits option.splits)

lemma playback_step_single_frame:
  "is_playing s \<Longrightarrow> output_stream s \<noteq> None \<Longrightarrow> 0 < playback_workers s \<Longrightarrow>
   audio_queue s = [f] \<Longrightarrow> f \<noteq> [] \<Longrightarrow> is_playback_step st \<Longrightarrow> write_succeeds st \<Longrightarrow>
   audio_queue (worker_step st s) = [] \<and> played (worker_step st s) = played s @ [f]"
  by (cases st rule: write_succeeds.cases) (simp_all add: playback_iteration_def Let_def)

lemma run_workers_single_frame:
  "is_playing s \<Longrightarrow> output_stream s \<noteq> None \<Longrightarrow> 0 < playback_workers s \<Longrightarrow>
   audio_queue s = [f] \<Longrightarrow> f \<noteq> [] \<Longrightarrow> \<forall>st\<in>set sched. write_succeeds st \<Longrightarrow>
   played (run_workers sched s) =
     (if \<exists>st\<in>set sched. is_playback_step st then played s @ [f] else played s) \<and>
   audio_queue (run_workers sched s) =
     (if \<exists>st\<in>set sched. is_playback_step st then [] else [f])"
proof (induction sched arbitrary: s)
  case Nil
  then show ?case by simp
next
  case (Cons st sched)
  show ?case
  proof (cases "is_playback_step st")
    case True
    have ok: "write_succeeds st" using Cons.prems(6) by simp
    from playback_step_single_frame [OF Cons.prems(1-5) True ok]
    have q: "audio_queue (worker_step st s) = []"
      and p: "played (worker_step st s) = played s @ [f]" by simp_all
    from run_workers_empty_queue [OF q, of sched] p True show ?thesis by simp
  next
    case False
    from other_step_playback_fields [OF False, of s]
    have q: "audio_queue (worker_step st s) = [f]"
      and p: "played (worker_step st s) = played s"
      and w: "0 < playback_workers (worker_step st s)"
      using Cons.prems by simp_all
    have a: "is_playing (worker_step st s)" and o: "output_stream (worker_step st s) \<noteq> None"
      using Cons.prems by (simp_all add: worker_step_flags)
    have r: "\<forall>st\<in>set sched. write_succeeds st" using Cons.prems(6) by simp
    from Cons.IH [OF a o w q Cons.prems(5) r] p False show ?thesis by simp
  qed
qed

text \<open>
  C3. After stop, a successful start and the enqueueing of a non-empty frame, under any
  interleaving of worker iterations in between and afterwards, the frames played are
  those played before the stop followed by the new frame, once: nothing queued before
  the stop is played. Enqueueing while playback is inactive changes nothing.
\<close>

theorem stop_start_enqueue_plays_once:
  assumes inv: "playback_inv s" and f: "f \<noteq> []"
    and started: "start_playback dev (run_workers sched1 (stop_playback s)) = Inr s2"
    and ok: "\<forall>st\<in>set sched3. write_succeeds st"
  shows "played (run_workers sched3 (queue_audio f (run_workers sched2 s2))) =
     (if \<exists>st\<in>set sched3. is_playback_step st then played s @ [f] else played s)
   \<and> audio_queue (run_workers sched3 (queue_audio f (run_workers sched2 s2))) =
     (if \<exists>st\<in>set sched3. is_playback_step st then [] else [f])
   \<and> (\<not> is_playing s \<longrightarrow> queue_audio f s = s)"
proof -
  define s1 where "s1 = run_workers sched1 (stop_playback s)"
  have q0: "audio_queue (stop_playback s) = []"
    using inv by (simp add: playback_inv_def stop_playback_effect)
  from run_workers_empty_queue [OF q0, of sched1]
  have q1: "audio_queue s1 = []" and p1: "played s1 = played s"
    by (simp_all add: s1_def stop_playback_effect)
  have n1: "\<not> is_playing s1"
    by (simp add: s1_def run_workers_flags stop_playback_effect)
  have s2: "s2 = s1\<lparr>is_playing := True, output_stream := Some Stream,
      open_outputs := open_outputs s1 + 1, playback_workers := playback_workers s1 + 1\<rparr>"
    using started n1 unfolding s1_def [symmetric]
    by (cases dev) (simp_all add: start_playback_def Let_def)
  have q2: "audio_queue s2 = []" and p2: "played s2 = played s" and a2: "is_playing s2"
    and o2: "output_stream s2 \<noteq> None" and w2: "0 < playback_workers s2"
    using q1 p1 by (simp_all add: s2)
  define s3 where "s3 = run_workers sched2 s2"
  from run_workers_empty_queue [OF q2, of sched2] a2 w2
  have q3: "audio_queue s3 = []" and p3: "played s3 = played s" and w3: "0 < playback_workers s3"
    by (simp_all add: s3_def p2)
  have a3: "is_playing s3" and o3: "output_stream s3 \<noteq> None"
    using a2 o2 by (simp_all add: s3_def run_workers_flags)
  define s4 where "s4 = queue_audio f s3"
  have q4: "audio_queue s4 = [f]" and p4: "played s4 = played s" and a4: "is_playing s4"
    and o4: "output_stream s4 \<noteq> None" and w4: "0 < playback_workers s4"
    using q3 p3 a3 o3 w3 by (simp_all add: s4_def queue_audio_def)
  from run_workers_single_frame [OF a4 o4 w4 q4 f ok]
  show ?thesis
    unfolding s4_def s3_def p4 [unfolded s4_def s3_def] by (simp add: queue_audio_def)
qed

theorem stop_start_enqueue_plays_once_witness:
  "playback_inv interrupted_processor
   \<and> audio_queue interrupted_processor = [[1, 2], [3, 4]]
   \<and> played interrupted_processor = [[9]]
   \<and> played (run_workers [SendStep, PlaybackStep None, PlaybackStep None]
        (queue_audio [7, 8] (run_workers [PlaybackStep None]
           (stop_playback interrupted_processor
              \<lparr>is_playing := True, output_stream := Some Stream, open_outputs := 1,
               playback_workers := 2\<rparr>))))
      = [[9], [7, 8]]
   \<and> queue_audio [7, 8] init_audio_processor = init_audio_processor"
proof -
  have st: "start_playback OutputOpened (run_workers [] (stop_playback interrupted_processor))
      = Inr (stop_playback interrupted_processor
              \<lparr>is_playing := True, output_stream := Some Stream, open_outputs := 1,
               playback_workers := 2\<rparr>)"
    by (simp add: start_playback_def stop_playback_def interrupted_processor_def
        playing_processor_def init_audio_processor_def Let_def)
  have f: "[7, 8] \<noteq> ([] :: bytes)" by simp
  have ok: "\<forall>st\<in>set [SendStep, PlaybackStep None, PlaybackStep None]. write_succeeds st"
    by simp
  have i: "playback_inv init_audio_processor" by (rule playback_inv_init)
  have st0: "start_playback OutputOpened (run_workers [] (stop_playback init_audio_processor))
      = Inr (init_audio_processor
              \<lparr>is_playing := True, output_stream := Some Stream, open_outputs := 1,
               playback_workers := 1\<rparr>)"
    by (simp add: start_playback_def stop_playback_def init_audio_processor_def Let_def)
  have n: "\<not> is_playing init_audio_processor" by (simp add: init_audio_processor_def)
  show ?thesis
    using stop_start_enqueue_plays_once [OF playback_inv_interrupted f st ok, of "[PlaybackStep None]"]
      stop_start_enqueue_plays_once [OF i f st0 ok, of "[]"] n
    by (simp add: playback_inv_def interrupted_processor_def playing_processor_def
        init_audio_processor_def)
qed

text \<open>Playback in queue order.\<close>

lemma playback_step_fifo:
  assumes "is_playing s" and "output_stream s \<noteq> None" and "0 < playback_workers s"
    and "is_playback_step st" and "write_succeeds st"
  shows "played (worker_step st s) = played s @ filter (\<lambda>f. f \<noteq> []) (take 1 (audio_queue s))
    \<and> audio_queue (worker_step st s) = drop 1 (audio_queue s)
    \<and> 0 < playback_workers (worker_step st s)"
  using assms
  by (cases st rule: write_succeeds.cases)
    (auto simp: playback_iteration_def Let_def split: list.splits)

lemma run_workers_playback_fifo:
  assumes "is_playing s" and "output_stream s \<noteq> None" and "0 < playback_workers s"
    and "\<forall>st\<in>set sched. write_succeeds st"
  shows "played (run_workers sched s) =
       played s @ filter (\<lambda>f. f \<noteq> [])
         (take (length (filter is_playback_step sched)) (audio_queue s))
    \<and> audio_queue (run_workers sched s) =
       drop (length (filter is_playback_step sched)) (audio_queue s)"
  using assms
proof (induction sched arbitrary: s)
  case Nil
  show ?case by simp
next
  case (Cons st sched)
  have a: "is_playing (worker_step st s)" and o: "output_stream (worker_step st s) \<noteq> None"
    using Cons.prems by (simp_all add: worker_step_flags)
  have r: "\<forall>st\<in>set sched. write_succeeds st" using Cons.prems(4) by simp
  show ?case
  proof (cases "is_playback_step st")
    case True
    have ok: "write_succeeds st" using Cons.prems(4) by simp
    from playback_step_fifo [OF Cons.prems(1-3) True ok]
    have p: "played (worker_step st s) =
        played s @ filter (\<lambda>f. f \<noteq> []) (take 1 (audio_queue s))"
      and q: "audio_queue (worker_step st s) = drop 1 (audio_queue s)"
      and w: "0 < playback_workers (worker_step st s)" by simp_all
    from Cons.IH [OF a o w r]
    have "played (run_workers sched (worker_step st s)) =
        (played s @ filter (\<lambda>f. f \<noteq> []) (take 1 (audio_queue s))) @
        filter (\<lambda>f. f \<noteq> [])
          (take (length (filter is_playback_step sched)) (drop 1 (audio_queue s)))"
      and "audio_queue (run_workers sched (worker_step st s)) =
        drop (length (filter is_playback_step sched)) (drop 1 (audio_queue s))"
      by (simp_all only: p q)
    then show ?thesis using True by (cases "audio_queue s") simp_all
  next
    case False
    from other_step_playback_fields [OF False, of s]
    have q: "audio_queue (worker_step st s) = audio_queue s"
      and p: "played (worker_step st s) = played s"
      and w: "0 < playback_workers (worker_step st s)"
      using Cons.prems by simp_all
    from Cons.IH [OF a o w r] show ?thesis using False by (simp add: p q)
  qed
qed

lemma receive_audio_delta_Some:
  "receive_audio_delta payload = Some ev \<Longrightarrow>
   \<exists>frame. b64decode payload = Some frame \<and> ev = AudioDelta frame"
  by (auto simp: receive_audio_delta_def)

text \<open>
  C2. An AudioDelta whose payload arrives in transport form is delivered with the
  decoded frame. Handling it while playback is active appends that frame to the playback
  queue and changes nothing else of the session. Under any interleaving of worker
  iterations the playback worker writes the queue in order, so the bytes written for the
  event, once the frames queued before it have been written, are the decoded frame.
\<close>

theorem audio_delta_decoded_and_enqueued:
  assumes "receive_audio_delta payload = Some ev"
    and "audio_processor a = Some ap" and "connection a = Some conn"
    and "is_playing ap"
  shows "\<exists>frame. b64decode payload = Some frame \<and> ev = AudioDelta frame
     \<and> handle_event env ev a =
         Inr (a\<lparr>audio_processor := Some (ap\<lparr>audio_queue := audio_queue ap @ [frame]\<rparr>),
                calls := calls a @ [QueueAudio]\<rparr>)
     \<and> (output_stream ap \<noteq> None \<and> 0 < playback_workers ap
          \<and> (\<forall>st\<in>set sched. write_succeeds st) \<longrightarrow>
          played (run_workers sched (ap\<lparr>audio_queue := audio_queue ap @ [frame]\<rparr>)) =
            played ap @ filter (\<lambda>f. f \<noteq> [])
              (take (length (filter is_playback_step sched)) (audio_queue ap @ [frame]))
          \<and> (length (audio_queue ap) < length (filter is_playback_step sched) \<longrightarrow>
               played (run_workers sched (ap\<lparr>audio_queue := audio_queue ap @ [frame]\<rparr>)) =
                 played ap @ filter (\<lambda>f. f \<noteq> []) (audio_queue ap) @ filter (\<lambda>f. f \<noteq> []) [frame]
               \<and> audio_queue (run_workers sched (ap\<lparr>audio_queue := audio_queue ap @ [frame]\<rparr>)) = []))"
proof -
  from receive_audio_delta_Some [OF assms(1)] obtain frame where
    d: "b64decode payload = Some frame" and e: "ev = AudioDelta frame" by blast
  define ap' where "ap' = ap\<lparr>audio_queue := audio_queue ap @ [frame]\<rparr>"
  have h: "handle_event env ev a =
      Inr (a\<lparr>audio_processor := Some ap', calls := calls a @ [QueueAudio]\<rparr>)"
    using assms(2-4) by (simp add: e ap'_def handle_event_def queue_audio_def)
  have w: "output_stream ap \<noteq> None \<and> 0 < playback_workers ap
        \<and> (\<forall>st\<in>set sched. write_succeeds st) \<longrightarrow>
      played (run_workers sched ap') =
        played ap @ filter (\<lambda>f. f \<noteq> [])
          (take (length (filter is_playback_step sched)) (audio_queue ap @ [frame]))
      \<and> (length (audio_queue ap) < length (filter is_playback_step sched) \<longrightarrow>
           played (run_workers sched ap') =
             played ap @ filter (\<lambda>f. f \<noteq> []) (audio_queue ap) @ filter (\<lambda>f. f \<noteq> []) [frame]
           \<and> audio_queue (run_workers sched ap') = [])"
  proof
    assume c: "output_stream ap \<noteq> None \<and> 0 < playback_workers ap
        \<and> (\<forall>st\<in>set sched. write_succeeds st)"
    have a1: "is_playing ap'" and a2: "output_stream ap' \<noteq> None"
      and a3: "0 < playback_workers ap'" and a4: "\<forall>st\<in>set sched. write_succeeds st"
      using assms(4) c by (simp_all add: ap'_def)
    from run_workers_playback_fifo [OF a1 a2 a3 a4]
    show "played (run_workers sched ap') =
        played ap @ filter (\<lambda>f. f \<noteq> [])
          (take (length (filter is_playback_step sched)) (audio_queue ap @ [frame]))
      \<and> (length (audio_queue ap) < length (filter is_playback_step sched) \<longrightarrow>
           played (run_workers sched ap') =
             played ap @ filter (\<lambda>f. f \<noteq> []) (audio_queue ap) @ filter (\<lambda>f. f \<noteq> []) [frame]
           \<and> audio_queue (run_workers sched ap') = [])"
      by (simp add: ap'_def)
  qed
  show ?thesis using d e h w unfolding ap'_def by blast
qed

lemma receive_Man: "receive_audio_delta ''TWFu'' = Some (AudioDelta [77, 97, 110])"
  using decode_full [of 19 22 5 46 "[]" "[]"]
  by (simp add: receive_audio_delta_def b64char_def b64chars_def)

theorem audio_delta_decoded_and_enqueued_witness:
  "receive_audio_delta ''TWFu'' = Some (AudioDelta [77, 97, 110])
   \<and> audio_processor responding_assistant = Some interrupted_processor
   \<and> is_playing interrupted_processor
   \<and> audio_queue interrupted_processor = [[1, 2], [3, 4]]
   \<and> played interrupted_processor = [[9]]
   \<and> handle_event working_devices (AudioDelta [77, 97, 110]) responding_assistant =
       Inr (responding_assistant
             \<lparr>audio_processor :=
                Some (interrupted_processor\<lparr>audio_queue := [[1, 2], [3, 4], [77, 97, 110]]\<rparr>),
              calls := [QueueAudio]\<rparr>)
   \<and> played (run_workers [PlaybackStep None, SendStep, PlaybackStep None, PlaybackStep None]
        (interrupted_processor\<lparr>audio_queue := [[1, 2], [3, 4], [77, 97, 110]]\<rparr>))
       = [[9], [1, 2], [3, 4], [77, 97, 110]]"
proof -
  have p: "audio_processor responding_assistant = Some interrupted_processor"
    and c: "connection responding_assistant = Some \<lparr>cancel_attempts = 0\<rparr>"
    by (simp_all add: responding_assistant_def)
  have a: "is_playing interrupted_processor"
    by (simp add: interrupted_processor_def playing_processor_def)
  have ok: "\<forall>st\<in>set [PlaybackStep None, SendStep, PlaybackStep None, PlaybackStep None].
      write_succeeds st" by simp
  from audio_delta_decoded_and_enqueued [OF receive_Man p c a, of working_devices
      "[PlaybackStep None, SendStep, PlaybackStep None, PlaybackStep None]"]
  show ?thesis
    using receive_Man ok
    by (simp add: responding_assistant_def interrupted_processor_def playing_processor_def
        init_audio_processor_def b64index_b64char)
qed

subsection \<open>Order from capture to transmission\<close>

lemma worker_step_fifo:
  assumes "capture_inv s"
  shows "\<exists>new. frames_read (worker_step st s) = frames_read s @ new
     \<and> sent (worker_step st s) @ audio_send_queue (worker_step st s)
         = sent s @ audio_send_queue s @ map b64encode (filter (\<lambda>f. f \<noteq> []) new)
     \<and> capture_inv (worker_step st s)"
proof (cases st)
  case (CaptureStep r)
  show ?thesis
  proof (cases r)
    case (Inl e)
    then show ?thesis using CaptureStep assms
      by (auto simp: capture_iteration_def capture_inv_def)
  next
    case (Inr audio_data)
    show ?thesis
    proof (cases "capture_workers s \<noteq> 0 \<and> is_capturing s \<and> input_stream s \<noteq> None")
      case True
      then have "frames_read (worker_step st s) = frames_read s @ [audio_data]
        \<and> sent (worker_step st s) @ audio_send_queue (worker_step st s)
         = sent s @ audio_send_queue s @ map b64encode (filter (\<lambda>f. f \<noteq> []) [audio_data])
        \<and> capture_inv (worker_step st s)"
        using CaptureStep Inr assms
        by (auto simp: capture_iteration_def capture_inv_def Let_def b64encode_nonempty b64encode_nonempty [THEN not_sym])
      then show ?thesis by blast
    next
      case False
      then have "frames_read (worker_step st s) = frames_read s @ []
        \<and> sent (worker_step st s) @ audio_send_queue (worker_step st s)
         = sent s @ audio_send_queue s @ map b64encode (filter (\<lambda>f. f \<noteq> []) [])
        \<and> capture_inv (worker_step st s)"
        using CaptureStep Inr assms
        by (auto simp: capture_iteration_def capture_inv_def Let_def)
      then show ?thesis by blast
    qed
  qed
next
  case SendStep
  have "frames_read (worker_step st s) = frames_read s @ []
    \<and> sent (worker_step st s) @ audio_send_queue (worker_step st s)
     = sent s @ audio_send_queue s @ map b64encode (filter (\<lambda>f. f \<noteq> []) [])
    \<and> capture_inv (worker_step st s)"
    using SendStep assms
    by (auto simp: send_iteration_def capture_inv_def Let_def split: list.splits)
  then show ?thesis by blast
next
  case (PlaybackStep w)
  have "frames_read (worker_step st s) = frames_read s @ []
    \<and> sent (worker_step st s) @ audio_send_queue (worker_step st s)
     = sent s @ audio_send_queue s @ map b64encode (filter (\<lambda>f. f \<noteq> []) [])
    \<and> capture_inv (worker_step st s)"
    using PlaybackStep assms
    by (auto simp: playback_iteration_def capture_inv_def Let_def split: list.splits option.splits)
  then show ?thesis by blast
qed

text \<open>
  C4. Under any interleaving of worker iterations, what has been sent followed by what
  is still queued is what it was before, followed by the encodings of the non-empty
  frames read since, in the order in which they were read: payloads enter the queue in
  reading order and leave it, to the channel, in the same order.
\<close>

theorem capture_to_send_fifo:
  assumes "capture_inv s"
  shows "\<exists>new. frames_read (run_workers sched s) = frames_read s @ new
     \<and> sent (run_workers sched s) @ audio_send_queue (run_workers sched s)
         = sent s @ audio_send_queue s @ map b64encode (filter (\<lambda>f. f \<noteq> []) new)
     \<and> capture_inv (run_workers sched s)"
  using assms
proof (induction sched arbitrary: s)
  case Nil
  then show ?case by simp
next
  case (Cons st sched)
  from worker_step_fifo [OF Cons.prems, of st] obtain new1 where
    r1: "frames_read (worker_step st s) = frames_read s @ new1"
    and f1: "sent (worker_step st s) @ audio_send_queue (worker_step st s)
         = sent s @ audio_send_queue s @ map b64encode (filter (\<lambda>f. f \<noteq> []) new1)"
    and i1: "capture_inv (worker_step st s)" by blast
  from Cons.IH [OF i1] obtain new2 where
    r2: "frames_read (run_workers sched (worker_step st s)) = frames_read (worker_step st s) @ new2"
    and f2: "sent (run_workers sched (worker_step st s))
           @ audio_send_queue (run_workers sched (worker_step st s))
         = sent (worker_step st s) @ audio_send_queue (worker_step st s)
           @ map b64encode (filter (\<lambda>f. f \<noteq> []) new2)"
    and i2: "capture_inv (run_workers sched (worker_step st s))" by blast
  have "frames_read (run_workers (st # sched) s) = frames_read s @ (new1 @ new2)"
    using r1 r2 by simp
  moreover have "sent (run_workers (st # sched) s) @ audio_send_queue (run_workers (st # sched) s)
      = sent s @ audio_send_queue s @ map b64encode (filter (\<lambda>f. f \<noteq> []) (new1 @ new2))"
    using f1 f2 by (simp add: append_assoc [symmetric] del: append_assoc)
  moreover have "capture_inv (run_workers (st # sched) s)" using i2 by simp
  ultimately show ?case by blast
qed

lemma capture_inv_capturing: "capture_inv capturing_processor"
  by (simp add: capture_inv_def capturing_processor_def init_audio_processor_def)

theorem capture_to_send_fifo_witness:
  "capture_inv capturing_processor
   \<and> sent capturing_processor = [''AAEC'']
   \<and> audio_send_queue capturing_processor = [''TWFu'', ''TQ=='']
   \<and> frames_read (run_workers [CaptureStep (Inr [72, 105]), SendStep, CaptureStep (Inr []), SendStep]
        capturing_processor) = [[72, 105], []]
   \<and> sent (run_workers [CaptureStep (Inr [72, 105]), SendStep, CaptureStep (Inr []), SendStep]
        capturing_processor) = [''AAEC'', ''TWFu'', ''TQ=='']
   \<and> audio_send_queue (run_workers [CaptureStep (Inr [72, 105]), SendStep, CaptureStep (Inr []), SendStep]
        capturing_processor) = [''SGk='']"
  using capture_to_send_fifo [OF capture_inv_capturing,
      of "[CaptureStep (Inr [72, 105]), SendStep, CaptureStep (Inr []), SendStep]"]
  by (simp add: capture_inv_def capturing_processor_def init_audio_processor_def
      capture_iteration_def send_iteration_def Let_def b64char_def b64chars_def)

subsection \<open>The invariants hold in every state the program reaches\<close>

text \<open>
  Both invariants hold of a new audio processor and are kept by every method, whether it
  returns or raises, by every worker iteration and by the event handler.
\<close>

lemma started_by_start_playback:
  "start_playback OutputOpened init_audio_processor = Inr playing_processor"
  by (simp add: start_playback_def playing_processor_def init_audio_processor_def Let_def)

lemma capture_inv_init: "capture_inv init_audio_processor"
  by (simp add: capture_inv_def init_audio_processor_def)

lemma inv_start_capture:
  assumes "playback_inv s" and "capture_inv s"
    and "start_capture dev s = Inr s' \<or> start_capture dev s = Inl (e, s')"
  shows "playback_inv s' \<and> capture_inv s'"
  using assms
  by (cases dev) (auto simp: start_capture_def playback_inv_def capture_inv_def Let_def
      split: if_splits)

lemma inv_stop_capture:
  assumes "playback_inv s" and "capture_inv s"
  shows "playback_inv (stop_capture s) \<and> capture_inv (stop_capture s)"
  using assms
  by (auto simp: stop_capture_def playback_inv_def capture_inv_def Let_def clear_queue_empty
      split: option.splits)

lemma inv_start_playback:
  assumes "playback_inv s" and "capture_inv s"
    and "start_playback dev s = Inr s' \<or> start_playback dev s = Inl (e, s')"
  shows "playback_inv s' \<and> capture_inv s'"
  using assms
  by (cases dev) (auto simp: start_playback_def playback_inv_def capture_inv_def Let_def
      split: if_splits)

lemma inv_queue_audio:
  assumes "playback_inv s" and "capture_inv s"
  shows "playback_inv (queue_audio f s) \<and> capture_inv (queue_audio f s)"
  using assms by (auto simp: queue_audio_def playback_inv_def capture_inv_def)

lemma inv_stop_playback:
  assumes "playback_inv s" and "capture_inv s"
  shows "playback_inv (stop_playback s) \<and> capture_inv (stop_playback s)"
  using assms
  by (auto simp: stop_playback_def playback_inv_def capture_inv_def Let_def clear_queue_empty
      split: option.splits)

lemma inv_worker_step:
  assumes "playback_inv s" and "capture_inv s"
  shows "playback_inv (worker_step st s) \<and> capture_inv (worker_step st s)"
proof -
  have "playback_inv (worker_step st s)"
    using assms(1)
    by (cases st)
      (auto simp: iteration_defs playback_inv_def Let_def
        split: list.splits sum.splits option.splits)
  moreover have "capture_inv (worker_step st s)"
    using worker_step_fifo [OF assms(2), of st] by blast
  ultimately show ?thesis by simp
qed

lemma inv_handle_event:
  assumes "audio_processor a = Some ap" and "playback_inv ap" and "capture_inv ap"
    and "handle_event env ev a = Inr a' \<or> handle_event env ev a = Inl (e, a')"
  shows "\<exists>ap'. audio_processor a' = Some ap' \<and> playback_inv ap' \<and> capture_inv ap'"
proof (cases "connection a")
  case None
  then show ?thesis using assms by (auto simp: handle_event_def)
next
  case (Some conn)
  show ?thesis
  proof (cases ev)
    case SessionUpdated
    then show ?thesis
      using assms Some inv_start_capture [OF assms(2,3), of "input_device env"]
      by (auto simp: handle_event_def Let_def split: sum.splits)
  next
    case SpeechStarted
    then show ?thesis
      using assms Some inv_stop_playback [OF assms(2,3)]
      by (cases "cancel_raises env")
        (auto simp: handle_event_def response_cancel_def Let_def)
  next
    case SpeechStopped
    then show ?thesis
      using assms Some inv_start_playback [OF assms(2,3), of "output_device env"]
      by (auto simp: handle_event_def Let_def split: sum.splits)
  next
    case (AudioDelta delta)
    then show ?thesis
      using assms Some inv_queue_audio [OF assms(2,3), of delta]
      by (auto simp: handle_event_def)
  qed (use assms Some in \<open>auto simp: handle_event_def\<close>)
qed

end
